theory Spec2Isabelle
  imports Complex_Main "HOL-Library.Multiset" "HOL-Library.Sublist"
begin

section \<open>Geometry primitives\<close>

text \<open>
  The program computes with numpy arrays of two floats. A vector is modelled as a pair
  of reals, and every arithmetic operation of the source as the exact operation on the
  reals: rounding, signed zeros, infinities and NaN of the floating-point numbers are
  outside the model. The two infinite interval bounds of \<open>line_halfplane_intersect\<close>
  are the one place where the source uses an infinity as a value; they are the value
  \<open>None\<close> of an optional bound below.
\<close>

type_synonym vec = "real \<times> real"

fun vadd :: "vec \<Rightarrow> vec \<Rightarrow> vec" where
  "vadd (a0, a1) (b0, b1) = (a0 + b0, a1 + b1)"

fun vsub :: "vec \<Rightarrow> vec \<Rightarrow> vec" where
  "vsub (a0, a1) (b0, b1) = (a0 - b0, a1 - b1)"

fun vneg :: "vec \<Rightarrow> vec" where
  "vneg (a0, a1) = (- a0, - a1)"

fun smul :: "vec \<Rightarrow> real \<Rightarrow> vec" where
  "smul (a0, a1) k = (a0 * k, a1 * k)"

fun sdiv :: "vec \<Rightarrow> real \<Rightarrow> vec" where
  "sdiv (a0, a1) k = (a0 / k, a1 / k)"

fun dot :: "vec \<Rightarrow> vec \<Rightarrow> real" where
  "dot (a0, a1) (b0, b1) = a0 * b0 + a1 * b1"

text \<open>\<open>det((a, b))\<close>: the determinant of the matrix with rows \<open>a\<close> and \<open>b\<close>.\<close>

fun det :: "vec \<Rightarrow> vec \<Rightarrow> real" where
  "det (a0, a1) (b0, b1) = a0 * b1 - a1 * b0"

fun perp :: "vec \<Rightarrow> vec" where
  "perp (a0, a1) = (a1, - a0)"

definition norm_sq :: "vec \<Rightarrow> real" where
  "norm_sq x = dot x x"


datatype error = InfeasibleError | AssertionError

text \<open>\<open>normalized\<close>: the \<open>assert l > 0\<close> of the source is the error branch.\<close>

definition normalized :: "vec \<Rightarrow> error + vec" where
  "normalized x =
     (let l = norm_sq x in
      if l > 0 then Inr (sdiv x (sqrt l)) else Inl AssertionError)"

section \<open>Half-planes\<close>

record Line =
  point :: vec
  direction :: vec

text \<open>The constructor \<open>Line(point, direction)\<close>.\<close>

definition Line_init :: "vec \<Rightarrow> vec \<Rightarrow> error + Line" where
  "Line_init p d =
     (case normalized d of
        Inl e \<Rightarrow> Inl e
      | Inr n \<Rightarrow> Inr \<lparr>point = p, direction = n\<rparr>)"

section \<open>The half-plane intersection solver\<close>

text \<open>
  The interval bounds. \<open>left_dist\<close> starts as \<open>float("-inf")\<close> and is only ever
  replaced by the maximum of itself and a finite offset; \<open>right_dist\<close> starts as
  \<open>float("inf")\<close> and is only ever replaced by a minimum. So a left bound is \<open>None\<close>
  for \<open>-inf\<close> or \<open>Some\<close> of a real, and a right bound is \<open>None\<close> for \<open>+inf\<close> or
  \<open>Some\<close> of a real.
\<close>

type_synonym left_bound = "real option"
type_synonym right_bound = "real option"

text \<open>\<open>min((right_dist, offset))\<close> and \<open>max((left_dist, offset))\<close>.\<close>

fun min_right :: "right_bound \<Rightarrow> real \<Rightarrow> right_bound" where
  "min_right None offset = Some offset"
| "min_right (Some r) offset = Some (min r offset)"

fun max_left :: "left_bound \<Rightarrow> real \<Rightarrow> left_bound" where
  "max_left None offset = Some offset"
| "max_left (Some l) offset = Some (max l offset)"

text \<open>The test \<open>left_dist > right_dist\<close>.\<close>

fun left_gt_right :: "left_bound \<Rightarrow> right_bound \<Rightarrow> bool" where
  "left_gt_right (Some l) (Some r) = (l > r)"
| "left_gt_right _ _ = False"

text \<open>\<open>clip(x, left, right)\<close> of numpy: \<open>minimum(maximum(x, left), right)\<close>.\<close>

fun clip :: "real \<Rightarrow> left_bound \<Rightarrow> right_bound \<Rightarrow> real" where
  "clip x left right =
     (let y = (case left of None \<Rightarrow> x | Some l \<Rightarrow> max x l)
      in case right of None \<Rightarrow> y | Some r \<Rightarrow> min y r)"

text \<open>
  The loop of \<open>line_halfplane_intersect\<close> over \<open>other_lines\<close>, with the two running
  bounds as arguments. Raising \<open>InfeasibleError\<close> leaves the loop.
\<close>

fun lhi_loop :: "Line \<Rightarrow> Line list \<Rightarrow> left_bound \<Rightarrow> right_bound
    \<Rightarrow> error + (left_bound \<times> right_bound)" where
  "lhi_loop line [] left_dist right_dist = Inr (left_dist, right_dist)"
| "lhi_loop line (prev_line # rest) left_dist right_dist =
     (let num = dot (direction prev_line) (vsub (point line) (point prev_line));
          den = det (direction line) (direction prev_line)
      in if den = 0 then
           (if num < 0 then Inl InfeasibleError
            else lhi_loop line rest left_dist right_dist)
         else
           (let offset = num / den;
                right_dist' = (if den > 0 then min_right right_dist offset else right_dist);
                left_dist' = (if den > 0 then left_dist else max_left left_dist offset)
            in if left_gt_right left_dist' right_dist' then Inl InfeasibleError
               else lhi_loop line rest left_dist' right_dist'))"

definition line_halfplane_intersect :: "Line \<Rightarrow> Line list
    \<Rightarrow> error + (left_bound \<times> right_bound)" where
  "line_halfplane_intersect line other_lines = lhi_loop line other_lines None None"

definition point_line_project :: "Line \<Rightarrow> vec \<Rightarrow> left_bound \<Rightarrow> right_bound \<Rightarrow> vec" where
  "point_line_project line p left_bound right_bound =
     (let new_dir = perp (direction line);
          proj_len = dot (vsub p (point line)) new_dir;
          clamped_len = clip proj_len left_bound right_bound
      in vadd (point line) (smul new_dir clamped_len))"

text \<open>
  The loop of \<open>halfplane_optimize\<close>: \<open>i\<close> is the index \<open>enumerate\<close> gives, \<open>rest\<close> the
  lines from index \<open>i\<close> on, and \<open>itertools.islice(lines, i)\<close> is \<open>take i lines\<close>.
\<close>

fun hpo_loop :: "Line list \<Rightarrow> vec \<Rightarrow> nat \<Rightarrow> Line list \<Rightarrow> vec \<Rightarrow> error + vec" where
  "hpo_loop lines optimal_point i [] p = Inr p"
| "hpo_loop lines optimal_point i (line # rest) p =
     (if dot (vsub p (point line)) (direction line) \<ge> 0
      then hpo_loop lines optimal_point (Suc i) rest p
      else (case line_halfplane_intersect line (take i lines) of
              Inl e \<Rightarrow> Inl e
            | Inr (left_dist, right_dist) \<Rightarrow>
                hpo_loop lines optimal_point (Suc i) rest
                  (point_line_project line optimal_point left_dist right_dist)))"

definition halfplane_optimize :: "Line list \<Rightarrow> vec \<Rightarrow> error + vec" where
  "halfplane_optimize lines optimal_point = hpo_loop lines optimal_point 0 lines optimal_point"

text \<open>
  The half-plane of a line is the set of points \<open>q\<close> with
  \<open>dot(q - point, direction) >= 0\<close>; a point is feasible for a list of lines when it
  lies in every half-plane.
\<close>

definition in_halfplane :: "Line \<Rightarrow> vec \<Rightarrow> bool" where
  "in_halfplane line q = (dot (vsub q (point line)) (direction line) \<ge> 0)"


text \<open>The comparison \<open>left <= right\<close> of a left bound with a right bound.\<close>

fun left_le_right :: "left_bound \<Rightarrow> right_bound \<Rightarrow> bool" where
  "left_le_right (Some l) (Some r) = (l \<le> r)"
| "left_le_right _ _ = True"

section \<open>Velocity obstacles and the ORCA step\<close>

record Agent =
  position :: vec
  velocity :: vec
  radius :: real
  max_speed :: real
  pref_velocity :: vec

text \<open>
  \<open>copysign(a, b)\<close> of numpy: the magnitude of \<open>a\<close> with the sign of \<open>b\<close>. The reals
  have one zero, which counts as positive here, as \<open>+0.0\<close> does.
\<close>

definition copysign :: "real \<Rightarrow> real \<Rightarrow> real" where
  "copysign a b = (if b < 0 then - \<bar>a\<bar> else \<bar>a\<bar>)"

text \<open>\<open>rot.dot(x)\<close>: a 2x2 matrix, given by its rows, applied to a vector.\<close>

fun mat_vec :: "vec \<times> vec \<Rightarrow> vec \<Rightarrow> vec" where
  "mat_vec (row0, row1) x = (dot row0 x, dot row1 x)"

text \<open>
  \<open>get_avoidance_velocity\<close>. The expression \<open>normalized(w) * r/t - w\<close> is read with
  Python's precedence, \<open>((normalized(w) * r) / t) - w\<close>. Line 133 of the source,
  \<open>n = perp(rotated_x)\<close>, is indented deeper than the statements around it, with no
  block for it to open; it is read as the statement of the \<open>else\<close> block that it is
  between.
\<close>

definition get_avoidance_velocity :: "Agent \<Rightarrow> Agent \<Rightarrow> real \<Rightarrow> real \<Rightarrow> error + (vec \<times> vec)" where
  "get_avoidance_velocity agent collider t dt =
     (let x = vneg (vsub (position agent) (position collider));
          v = vsub (velocity agent) (velocity collider);
          r = radius agent + radius collider;
          x_len_sq = norm_sq x
      in if x_len_sq \<ge> r * r then
           (let adjusted_center = smul (sdiv x t) (1 - (r * r) / x_len_sq)
            in if dot (vsub v adjusted_center) adjusted_center < 0 then
                 (let w = vsub v (sdiv x t)
                  in case normalized w of
                       Inl e \<Rightarrow> Inl e
                     | Inr nw \<Rightarrow> Inr (vsub (sdiv (smul nw r) t) w, nw))
               else
                 (let leg_len = sqrt (x_len_sq - r * r);
                      sine = copysign r (det v x);
                      rot = ((leg_len, sine), (- sine, leg_len));
                      rotated_x = sdiv (mat_vec rot x) x_len_sq;
                      n = perp rotated_x;
                      n' = (if sine < 0 then vneg n else n);
                      u = vsub (smul rotated_x (dot v rotated_x)) v
                  in Inr (u, n')))
         else
           (let w = vsub v (sdiv x dt)
            in case normalized w of
                 Inl e \<Rightarrow> Inl e
               | Inr nw \<Rightarrow> Inr (vsub (sdiv (smul nw r) dt) w, nw)))"

text \<open>The loop of \<open>orca\<close>, appending one line per collider to \<open>lines\<close>.\<close>

fun orca_loop :: "Agent \<Rightarrow> Agent list \<Rightarrow> real \<Rightarrow> real \<Rightarrow> Line list \<Rightarrow> error + Line list" where
  "orca_loop agent [] t dt lines = Inr lines"
| "orca_loop agent (collider # rest) t dt lines =
     (case get_avoidance_velocity agent collider t dt of
        Inl e \<Rightarrow> Inl e
      | Inr (dv, n) \<Rightarrow>
          (case Line_init (vadd (velocity agent) (sdiv dv 2)) n of
             Inl e \<Rightarrow> Inl e
           | Inr line \<Rightarrow> orca_loop agent rest t dt (lines @ [line])))"

definition orca :: "Agent \<Rightarrow> Agent list \<Rightarrow> real \<Rightarrow> real \<Rightarrow> error + (vec \<times> Line list)" where
  "orca agent colliding_agents t dt =
     (case orca_loop agent colliding_agents t dt [] of
        Inl e \<Rightarrow> Inl e
      | Inr lines \<Rightarrow>
          (case halfplane_optimize lines (pref_velocity agent) of
             Inl e \<Rightarrow> Inl e
           | Inr p \<Rightarrow> Inr (p, lines)))"


section \<open>Notions for the correctness of the solver\<close>






section \<open>The same functions on a store of objects\<close>

text \<open>
  The functions above take and return values. In the program the arguments are
  references to objects: numpy arrays, Line and Agent instances, Python lists. To state
  that a call leaves every object it is given as it was, the functions are modelled a
  second time over an explicit store. Every numpy operation of the source that yields an
  array (\<open>a - b\<close>, \<open>a * k\<close>, \<open>-a\<close>, \<open>array(a)\<close>, \<open>perp(a)\<close>, \<open>rot.dot(x)\<close>) allocates a
  new array and leaves its operands alone; \<open>dot\<close> and \<open>det\<close> return a float; the one
  operation of the source that writes to an existing object is \<open>lines.append(line)\<close>
  in \<open>orca\<close>. An address is an index into the list of objects of its class. The
  iteration over a list reads the list once: nothing writes to it while the loop runs.
\<close>

record agent_obj =
  position_ref :: nat
  velocity_ref :: nat
  radius_val :: real
  max_speed_val :: real
  pref_velocity_ref :: nat

record store =
  arrays :: "vec list"
  matrices :: "(vec \<times> vec) list"
  line_objs :: "(nat \<times> nat) list"
  agent_objs :: "agent_obj list"
  list_objs :: "nat list list"

text \<open>
  A call runs on a store and yields the store after it, with the value returned or the
  error raised; a statement after a raise is not run.
\<close>

type_synonym 'a prog = "store \<Rightarrow> (error + 'a) \<times> store"

definition return_st :: "'a \<Rightarrow> 'a prog" where
  "return_st x s = (Inr x, s)"

definition raise_st :: "error \<Rightarrow> 'a prog" where
  "raise_st e s = (Inl e, s)"

definition bind_st :: "'a prog \<Rightarrow> ('a \<Rightarrow> 'b prog) \<Rightarrow> 'b prog" where
  "bind_st m f s = (case m s of (Inl e, s') \<Rightarrow> (Inl e, s') | (Inr x, s') \<Rightarrow> f x s')"

text \<open>
  Allocation of a new object, reading the fields of an object, and \<open>list.append\<close>.
  A read at an address that is no object of the store has no counterpart in the program,
  where every reference refers to an object; the properties below are stated for
  arguments that are objects of the store.
\<close>

definition new_array :: "vec \<Rightarrow> nat prog" where
  "new_array v s = (Inr (length (arrays s)), s\<lparr>arrays := arrays s @ [v]\<rparr>)"

definition new_matrix :: "vec \<times> vec \<Rightarrow> nat prog" where
  "new_matrix m s = (Inr (length (matrices s)), s\<lparr>matrices := matrices s @ [m]\<rparr>)"

definition new_line :: "nat \<times> nat \<Rightarrow> nat prog" where
  "new_line l s = (Inr (length (line_objs s)), s\<lparr>line_objs := line_objs s @ [l]\<rparr>)"

definition new_list :: "nat list \<Rightarrow> nat prog" where
  "new_list xs s = (Inr (length (list_objs s)), s\<lparr>list_objs := list_objs s @ [xs]\<rparr>)"

definition get_line :: "nat \<Rightarrow> (nat \<times> nat) prog" where
  "get_line r s = (Inr (line_objs s ! r), s)"

definition get_agent :: "nat \<Rightarrow> agent_obj prog" where
  "get_agent r s = (Inr (agent_objs s ! r), s)"

definition get_list :: "nat \<Rightarrow> nat list prog" where
  "get_list r s = (Inr (list_objs s ! r), s)"

definition list_append :: "nat \<Rightarrow> nat \<Rightarrow> unit prog" where
  "list_append r x s = (Inr (), s\<lparr>list_objs := (list_objs s)[r := list_objs s ! r @ [x]]\<rparr>)"

text \<open>
  The numpy operations: on one array, on two arrays, on an array and a float, the two
  reductions \<open>dot\<close> and \<open>det\<close> to a float, and the product of a matrix with an array.
\<close>

definition np_unop :: "(vec \<Rightarrow> vec) \<Rightarrow> nat \<Rightarrow> nat prog" where
  "np_unop f a s = new_array (f (arrays s ! a)) s"

definition np_binop :: "(vec \<Rightarrow> vec \<Rightarrow> vec) \<Rightarrow> nat \<Rightarrow> nat \<Rightarrow> nat prog" where
  "np_binop f a b s = new_array (f (arrays s ! a) (arrays s ! b)) s"

definition np_scalar :: "(vec \<Rightarrow> real \<Rightarrow> vec) \<Rightarrow> nat \<Rightarrow> real \<Rightarrow> nat prog" where
  "np_scalar f a k s = new_array (f (arrays s ! a) k) s"

definition np_reduce :: "(vec \<Rightarrow> vec \<Rightarrow> real) \<Rightarrow> nat \<Rightarrow> nat \<Rightarrow> real prog" where
  "np_reduce f a b s = (Inr (f (arrays s ! a) (arrays s ! b)), s)"

definition np_matvec :: "nat \<Rightarrow> nat \<Rightarrow> nat prog" where
  "np_matvec m a s = new_array (mat_vec (matrices s ! m) (arrays s ! a)) s"

text \<open>
  The functions of the source, statement by statement. \<open>array(point)\<close> in the Line
  constructor copies its argument. \<open>itertools.islice(lines, i)\<close> yields the first
  \<open>i\<close> addresses of the list.
\<close>

definition st_normalized :: "nat \<Rightarrow> nat prog" where
  "st_normalized x =
     bind_st (np_reduce dot x x) (\<lambda>l.
       if l > 0 then np_scalar sdiv x (sqrt l) else raise_st AssertionError)"

definition st_Line_init :: "nat \<Rightarrow> nat \<Rightarrow> nat prog" where
  "st_Line_init p d =
     bind_st (np_unop id p) (\<lambda>self_point.
     bind_st (np_unop id d) (\<lambda>d'.
     bind_st (st_normalized d') (\<lambda>self_direction.
     new_line (self_point, self_direction))))"

definition st_point_line_project :: "nat \<Rightarrow> nat \<Rightarrow> left_bound \<Rightarrow> right_bound \<Rightarrow> nat prog" where
  "st_point_line_project line p left_bound right_bound =
     bind_st (get_line line) (\<lambda>(line_point, line_direction).
     bind_st (np_unop perp line_direction) (\<lambda>new_dir.
     bind_st (np_binop vsub p line_point) (\<lambda>diff.
     bind_st (np_reduce dot diff new_dir) (\<lambda>proj_len.
     bind_st (np_scalar smul new_dir (clip proj_len left_bound right_bound)) (\<lambda>scaled.
     np_binop vadd line_point scaled)))))"

fun st_lhi_loop :: "nat \<Rightarrow> nat list \<Rightarrow> left_bound \<Rightarrow> right_bound
    \<Rightarrow> (left_bound \<times> right_bound) prog" where
  "st_lhi_loop line [] left_dist right_dist = return_st (left_dist, right_dist)"
| "st_lhi_loop line (prev_line # rest) left_dist right_dist =
     bind_st (get_line prev_line) (\<lambda>(prev_point, prev_direction).
     bind_st (get_line line) (\<lambda>(line_point, line_direction).
     bind_st (np_binop vsub line_point prev_point) (\<lambda>diff.
     bind_st (np_reduce dot prev_direction diff) (\<lambda>num.
     bind_st (np_reduce det line_direction prev_direction) (\<lambda>den.
       if den = 0 then
         (if num < 0 then raise_st InfeasibleError
          else st_lhi_loop line rest left_dist right_dist)
       else
         (let offset = num / den;
              right_dist' = (if den > 0 then min_right right_dist offset else right_dist);
              left_dist' = (if den > 0 then left_dist else max_left left_dist offset)
          in if left_gt_right left_dist' right_dist' then raise_st InfeasibleError
             else st_lhi_loop line rest left_dist' right_dist'))))))"

definition st_line_halfplane_intersect :: "nat \<Rightarrow> nat list \<Rightarrow> (left_bound \<times> right_bound) prog" where
  "st_line_halfplane_intersect line other_lines = st_lhi_loop line other_lines None None"

fun st_hpo_loop :: "nat list \<Rightarrow> nat \<Rightarrow> nat \<Rightarrow> nat list \<Rightarrow> nat \<Rightarrow> nat prog" where
  "st_hpo_loop lines optimal_point i [] p = return_st p"
| "st_hpo_loop lines optimal_point i (line # rest) p =
     bind_st (get_line line) (\<lambda>(line_point, line_direction).
     bind_st (np_binop vsub p line_point) (\<lambda>diff.
     bind_st (np_reduce dot diff line_direction) (\<lambda>d.
       if d \<ge> 0 then st_hpo_loop lines optimal_point (Suc i) rest p
       else
         bind_st (st_line_halfplane_intersect line (take i lines)) (\<lambda>(left_dist, right_dist).
         bind_st (st_point_line_project line optimal_point left_dist right_dist) (\<lambda>p'.
         st_hpo_loop lines optimal_point (Suc i) rest p')))))"

definition st_halfplane_optimize :: "nat \<Rightarrow> nat \<Rightarrow> nat prog" where
  "st_halfplane_optimize lines optimal_point =
     bind_st (get_list lines) (\<lambda>ls. st_hpo_loop ls optimal_point 0 ls optimal_point)"

definition st_get_avoidance_velocity :: "nat \<Rightarrow> nat \<Rightarrow> real \<Rightarrow> real \<Rightarrow> (nat \<times> nat) prog" where
  "st_get_avoidance_velocity agent collider t dt =
     bind_st (get_agent agent) (\<lambda>a.
     bind_st (get_agent collider) (\<lambda>c.
     bind_st (np_binop vsub (position_ref a) (position_ref c)) (\<lambda>diff.
     bind_st (np_unop vneg diff) (\<lambda>x.
     bind_st (np_binop vsub (velocity_ref a) (velocity_ref c)) (\<lambda>v.
     (let r = radius_val a + radius_val c in
     bind_st (np_reduce dot x x) (\<lambda>x_len_sq.
       if x_len_sq \<ge> r * r then
         bind_st (np_scalar sdiv x t) (\<lambda>x_t.
         bind_st (np_scalar smul x_t (1 - (r * r) / x_len_sq)) (\<lambda>adjusted_center.
         bind_st (np_binop vsub v adjusted_center) (\<lambda>rel.
         bind_st (np_reduce dot rel adjusted_center) (\<lambda>side.
           if side < 0 then
             bind_st (np_scalar sdiv x t) (\<lambda>x_t'.
             bind_st (np_binop vsub v x_t') (\<lambda>w.
             bind_st (st_normalized w) (\<lambda>nw.
             bind_st (np_scalar smul nw r) (\<lambda>nw_r.
             bind_st (np_scalar sdiv nw_r t) (\<lambda>nw_r_t.
             bind_st (np_binop vsub nw_r_t w) (\<lambda>u.
             bind_st (st_normalized w) (\<lambda>n.
             return_st (u, n))))))))
           else
             (let leg_len = sqrt (x_len_sq - r * r) in
             bind_st (np_reduce det v x) (\<lambda>d.
             (let sine = copysign r d in
             bind_st (new_matrix ((leg_len, sine), (- sine, leg_len))) (\<lambda>rot.
             bind_st (np_matvec rot x) (\<lambda>rot_x.
             bind_st (np_scalar sdiv rot_x x_len_sq) (\<lambda>rotated_x.
             bind_st (np_unop perp rotated_x) (\<lambda>n.
             bind_st (if sine < 0 then np_unop vneg n else return_st n) (\<lambda>n'.
             bind_st (np_reduce dot v rotated_x) (\<lambda>k.
             bind_st (np_scalar smul rotated_x k) (\<lambda>scaled.
             bind_st (np_binop vsub scaled v) (\<lambda>u.
             return_st (u, n'))))))))))))))))
       else
         bind_st (np_scalar sdiv x dt) (\<lambda>x_dt.
         bind_st (np_binop vsub v x_dt) (\<lambda>w.
         bind_st (st_normalized w) (\<lambda>nw.
         bind_st (np_scalar smul nw r) (\<lambda>nw_r.
         bind_st (np_scalar sdiv nw_r dt) (\<lambda>nw_r_dt.
         bind_st (np_binop vsub nw_r_dt w) (\<lambda>u.
         bind_st (st_normalized w) (\<lambda>n.
         return_st (u, n)))))))))))))))"

fun st_orca_loop :: "nat \<Rightarrow> nat list \<Rightarrow> real \<Rightarrow> real \<Rightarrow> nat \<Rightarrow> unit prog" where
  "st_orca_loop agent [] t dt lines = return_st ()"
| "st_orca_loop agent (collider # rest) t dt lines =
     bind_st (st_get_avoidance_velocity agent collider t dt) (\<lambda>(dv, n).
     bind_st (get_agent agent) (\<lambda>a.
     bind_st (np_scalar sdiv dv 2) (\<lambda>half.
     bind_st (np_binop vadd (velocity_ref a) half) (\<lambda>anchor.
     bind_st (st_Line_init anchor n) (\<lambda>line.
     bind_st (list_append lines line) (\<lambda>_.
     st_orca_loop agent rest t dt lines))))))"

definition st_orca :: "nat \<Rightarrow> nat \<Rightarrow> real \<Rightarrow> real \<Rightarrow> (nat \<times> nat) prog" where
  "st_orca agent colliding_agents t dt =
     bind_st (new_list []) (\<lambda>lines.
     bind_st (get_list colliding_agents) (\<lambda>colliders.
     bind_st (st_orca_loop agent colliders t dt lines) (\<lambda>_.
     bind_st (get_agent agent) (\<lambda>a.
     bind_st (st_halfplane_optimize lines (pref_velocity_ref a)) (\<lambda>p.
     return_st (p, lines))))))"

text \<open>
  An argument is an object of the store when its address and the addresses it holds are
  in the store; its content is the value the functions of the first model compute with.
\<close>

definition wf_line :: "store \<Rightarrow> nat \<Rightarrow> bool" where
  "wf_line s l = (l < length (line_objs s) \<and> fst (line_objs s ! l) < length (arrays s)
     \<and> snd (line_objs s ! l) < length (arrays s))"

definition wf_lines :: "store \<Rightarrow> nat list \<Rightarrow> bool" where
  "wf_lines s ls = (\<forall>l \<in> set ls. wf_line s l)"

definition line_val :: "store \<Rightarrow> nat \<Rightarrow> Line" where
  "line_val s l = \<lparr>point = arrays s ! fst (line_objs s ! l),
                   direction = arrays s ! snd (line_objs s ! l)\<rparr>"

definition wf_agent :: "store \<Rightarrow> nat \<Rightarrow> bool" where
  "wf_agent s a = (a < length (agent_objs s)
     \<and> position_ref (agent_objs s ! a) < length (arrays s)
     \<and> velocity_ref (agent_objs s ! a) < length (arrays s)
     \<and> pref_velocity_ref (agent_objs s ! a) < length (arrays s))"

definition agent_val :: "store \<Rightarrow> nat \<Rightarrow> Agent" where
  "agent_val s a =
     \<lparr>position = arrays s ! position_ref (agent_objs s ! a),
      velocity = arrays s ! velocity_ref (agent_objs s ! a),
      radius = radius_val (agent_objs s ! a),
      max_speed = max_speed_val (agent_objs s ! a),
      pref_velocity = arrays s ! pref_velocity_ref (agent_objs s ! a)\<rparr>"

text \<open>
  The store \<open>s'\<close> extends \<open>s\<close> when every object of \<open>s\<close> is in \<open>s'\<close> at the same
  address with the same content. \<open>grows\<close> is the part of it on arrays, matrices, Lines and
  Agents; \<open>lists_kept L\<close> says so of every list but the one at address \<open>L\<close>.
\<close>

definition grows :: "store \<Rightarrow> store \<Rightarrow> bool" where
  "grows s s' = (prefix (arrays s) (arrays s') \<and> prefix (matrices s) (matrices s')
     \<and> prefix (line_objs s) (line_objs s') \<and> agent_objs s' = agent_objs s)"

definition extends :: "store \<Rightarrow> store \<Rightarrow> bool" where
  "extends s s' = (grows s s' \<and> prefix (list_objs s) (list_objs s'))"

definition lists_kept :: "nat \<Rightarrow> store \<Rightarrow> store \<Rightarrow> bool" where
  "lists_kept L s s' = (length (list_objs s) \<le> length (list_objs s')
     \<and> (\<forall>i < length (list_objs s). i \<noteq> L \<longrightarrow> list_objs s' ! i = list_objs s ! i))"

text \<open>
  The result of a call against the result of the first model: the same error, or
  addresses whose contents in the final store are the values returned there.
\<close>

definition array_result :: "store \<Rightarrow> error + nat \<Rightarrow> error + vec \<Rightarrow> bool" where
  "array_result s r v =
     (case v of
        Inl e \<Rightarrow> r = Inl e
      | Inr x \<Rightarrow> (\<exists>a. r = Inr a \<and> a < length (arrays s) \<and> arrays s ! a = x))"

definition pair_result :: "store \<Rightarrow> error + nat \<times> nat \<Rightarrow> error + vec \<times> vec \<Rightarrow> bool" where
  "pair_result s r v =
     (case v of
        Inl e \<Rightarrow> r = Inl e
      | Inr (x, y) \<Rightarrow> (\<exists>a b. r = Inr (a, b) \<and> a < length (arrays s) \<and> arrays s ! a = x
                           \<and> b < length (arrays s) \<and> arrays s ! b = y))"

definition orca_result :: "store \<Rightarrow> error + nat \<times> nat \<Rightarrow> error + vec \<times> Line list \<Rightarrow> bool" where
  "orca_result s r v =
     (case v of
        Inl e \<Rightarrow> r = Inl e
      | Inr (vel, constraints) \<Rightarrow>
          (\<exists>p L. r = Inr (p, L) \<and> p < length (arrays s) \<and> arrays s ! p = vel
             \<and> L < length (list_objs s) \<and> wf_lines s (list_objs s ! L)
             \<and> map (line_val s) (list_objs s ! L) = constraints))"

text \<open>
  The statements of the cap branch (run with \<open>t\<close>, and with \<open>dt\<close> when the agents
  overlap) and of the leg branch of \<open>st_get_avoidance_velocity\<close>, named for the proofs.
\<close>

definition cap_prog :: "nat \<Rightarrow> nat \<Rightarrow> real \<Rightarrow> real \<Rightarrow> (nat \<times> nat) prog" where
  "cap_prog x v r k =
     bind_st (np_scalar sdiv x k) (\<lambda>x_t.
     bind_st (np_binop vsub v x_t) (\<lambda>w.
     bind_st (st_normalized w) (\<lambda>nw.
     bind_st (np_scalar smul nw r) (\<lambda>nw_r.
     bind_st (np_scalar sdiv nw_r k) (\<lambda>nw_r_t.
     bind_st (np_binop vsub nw_r_t w) (\<lambda>u.
     bind_st (st_normalized w) (\<lambda>n.
     return_st (u, n))))))))"

definition leg_prog :: "nat \<Rightarrow> nat \<Rightarrow> real \<Rightarrow> real \<Rightarrow> (nat \<times> nat) prog" where
  "leg_prog x v r x_len_sq =
     (let leg_len = sqrt (x_len_sq - r * r) in
      bind_st (np_reduce det v x) (\<lambda>d.
      (let sine = copysign r d in
      bind_st (new_matrix ((leg_len, sine), (- sine, leg_len))) (\<lambda>rot.
      bind_st (np_matvec rot x) (\<lambda>rot_x.
      bind_st (np_scalar sdiv rot_x x_len_sq) (\<lambda>rotated_x.
      bind_st (np_unop perp rotated_x) (\<lambda>n.
      bind_st (if sine < 0 then np_unop vneg n else return_st n) (\<lambda>n'.
      bind_st (np_reduce dot v rotated_x) (\<lambda>k.
      bind_st (np_scalar smul rotated_x k) (\<lambda>scaled.
      bind_st (np_binop vsub scaled v) (\<lambda>u.
      return_st (u, n'))))))))))))"

text \<open>
  A store with two agents, the list of the second agent, a Line and the list of it, and
  a target array at address 8.
\<close>

definition example_store :: store where
  "example_store =
     \<lparr>arrays = [(0, 0), (0, 0), (1, 0), (1, 0), (0, 0), (0, 0), (0, 0), (1, 0), (- 1, - 2)],
      matrices = [],
      line_objs = [(6, 7)],
      agent_objs =
        [\<lparr>position_ref = 0, velocity_ref = 1, radius_val = 1, max_speed_val = 1, pref_velocity_ref = 2\<rparr>,
         \<lparr>position_ref = 3, velocity_ref = 4, radius_val = 1, max_speed_val = 1, pref_velocity_ref = 5\<rparr>],
      list_objs = [[1], [0]]\<rparr>"

section \<open>Properties of the solver\<close>

lemma hpo_loop_feasible_target:
  "list_all (\<lambda>line. in_halfplane line p) rest \<Longrightarrow> hpo_loop lines t i rest p = Inr p"
  by (induction rest arbitrary: i) (simp_all add: in_halfplane_def)

lemma lhi_loop_ordered:
  "lhi_loop line ps l r = Inr (l', r') \<Longrightarrow> left_le_right l r \<Longrightarrow> left_le_right l' r'"
proof (induction ps arbitrary: l r)
  case Nil
  then show ?case by simp
next
  case (Cons p ps)
  let ?den = "det (direction line) (direction p)"
  let ?off = "dot (direction p) (vsub (point line) (point p)) / ?den"
  show ?case
  proof (cases "?den = 0")
    case True
    with Cons.prems have "lhi_loop line ps l r = Inr (l', r')"
      by (simp add: Let_def split: if_splits)
    with Cons.IH Cons.prems(2) show ?thesis by blast
  next
    case False
    let ?r = "if ?den > 0 then min_right r ?off else r"
    let ?l = "if ?den > 0 then l else max_left l ?off"
    from False Cons.prems(1) have ok: "\<not> left_gt_right ?l ?r"
      and rec: "lhi_loop line ps ?l ?r = Inr (l', r')"
      by (simp_all add: Let_def split: if_splits)
    have "left_le_right ?l ?r"
      using ok by (cases ?l; cases ?r) (simp_all add: not_less)
    with Cons.IH rec show ?thesis by blast
  qed
qed

text \<open>
  C7. If the target satisfies \<open>dot(target - point, direction) >= 0\<close> for every line of
  the list, \<open>halfplane_optimize\<close> returns the target itself; the empty list is the
  case with no line to satisfy.
\<close>

theorem halfplane_optimize_noop:
  "\<forall>line \<in> set lines. dot (vsub target (point line)) (direction line) \<ge> 0
   \<Longrightarrow> halfplane_optimize lines target = Inr target"
  unfolding halfplane_optimize_def
  by (rule hpo_loop_feasible_target) (simp add: list_all_iff in_halfplane_def)

theorem halfplane_optimize_noop_witness:
  "dot (vsub (2, 3) (0, 0)) (1, 0) \<ge> 0
   \<and> halfplane_optimize [\<lparr>point = (0, 0), direction = (1, 0)\<rparr>] (2, 3) = Inr (2, 3)
   \<and> halfplane_optimize [] (2, 3) = Inr (2, 3)"
  using halfplane_optimize_noop [of "[\<lparr>point = (0, 0), direction = (1, 0)\<rparr>]" "(2, 3)"]
    halfplane_optimize_noop [of "[]" "(2, 3)"]
  by simp

text \<open>
  C10. Whenever \<open>line_halfplane_intersect\<close> returns normally, the interval it returns
  has \<open>left <= right\<close>, where the left bound may be \<open>-inf\<close> and the right one \<open>+inf\<close>;
  the clamp of \<open>point_line_project\<close> then yields a value inside that interval.
\<close>

theorem line_halfplane_intersect_ordered:
  "line_halfplane_intersect line prior_lines = Inr (left, right)
   \<Longrightarrow> left_le_right left right
       \<and> (\<forall>x. (case left of None \<Rightarrow> True | Some l \<Rightarrow> l \<le> clip x left right)
              \<and> (case right of None \<Rightarrow> True | Some r \<Rightarrow> clip x left right \<le> r))"
proof -
  assume a: "line_halfplane_intersect line prior_lines = Inr (left, right)"
  have le: "left_le_right left right"
    using lhi_loop_ordered [of line prior_lines None None left right] a
    by (simp add: line_halfplane_intersect_def)
  then show ?thesis
    by (cases left; cases right) (auto simp: Let_def)
qed

theorem line_halfplane_intersect_ordered_witness:
  "line_halfplane_intersect \<lparr>point = (0, 0), direction = (1, 0)\<rparr>
      [\<lparr>point = (0, 1), direction = (0, -1)\<rparr>, \<lparr>point = (0, -2), direction = (0, 1)\<rparr>]
     = Inr (Some (-1), Some 2)
   \<and> left_le_right (Some (-1)) (Some 2)"
  using line_halfplane_intersect_ordered [of "\<lparr>point = (0, 0), direction = (1, 0)\<rparr>"
      "[\<lparr>point = (0, 1), direction = (0, -1)\<rparr>, \<lparr>point = (0, -2), direction = (0, 1)\<rparr>]"
      "Some (-1)" "Some 2"]
  by (simp add: line_halfplane_intersect_def)

section \<open>Properties of the Line constructor and the ORCA step\<close>

























section \<open>Correctness of the solver\<close>
















































section \<open>The core functions leave their arguments unchanged\<close>

lemma prefix_nth: "prefix xs ys \<Longrightarrow> i < length xs \<Longrightarrow> ys ! i = xs ! i"
  by (auto simp: prefix_def nth_append)

lemma grows_refl: "grows s s"
  by (simp add: grows_def)

lemma grows_trans: "grows s s' \<Longrightarrow> grows s' s'' \<Longrightarrow> grows s s''"
  by (auto simp: grows_def)

lemma extends_refl: "extends s s"
  by (simp add: extends_def grows_refl)

lemma extends_trans: "extends s s' \<Longrightarrow> extends s' s'' \<Longrightarrow> extends s s''"
  by (auto simp: extends_def intro: grows_trans)

lemma grows_array: "grows s s' \<Longrightarrow> r < length (arrays s) \<Longrightarrow> r < length (arrays s') \<and> arrays s' ! r = arrays s ! r"
  by (auto simp: grows_def prefix_nth dest: prefix_length_le)

lemma grows_line:
  assumes "grows s s'" "wf_line s l"
  shows "wf_line s' l \<and> line_val s' l = line_val s l"
proof -
  from assms have l: "l < length (line_objs s')" "line_objs s' ! l = line_objs s ! l"
    by (auto simp: grows_def wf_line_def prefix_nth dest: prefix_length_le)
  with assms show ?thesis
    by (simp add: wf_line_def line_val_def grows_array)
qed

lemma extends_arrays: "extends s (s\<lparr>arrays := arrays s @ xs\<rparr>)"
  by (simp add: extends_def grows_def)

lemma st_point_line_project_run:
  assumes "wf_line s l" "p < length (arrays s)"
  shows "\<exists>r s'. st_point_line_project l p lb rb s = (Inr r, s') \<and> extends s s'
           \<and> r < length (arrays s')
           \<and> arrays s' ! r = point_line_project (line_val s l) (arrays s ! p) lb rb"
proof -
  obtain lp ld where l: "line_objs s ! l = (lp, ld)" by (cases "line_objs s ! l")
  with assms have b: "lp < length (arrays s)" "ld < length (arrays s)"
    by (simp_all add: wf_line_def)
  let ?nd = "perp (arrays s ! ld)"
  let ?diff = "vsub (arrays s ! p) (arrays s ! lp)"
  let ?sc = "smul ?nd (clip (dot ?diff ?nd) lb rb)"
  let ?res = "vadd (arrays s ! lp) ?sc"
  have "st_point_line_project l p lb rb s
      = (Inr (length (arrays s) + 3), s\<lparr>arrays := arrays s @ [?nd, ?diff, ?sc, ?res]\<rparr>)"
    using b assms(2)
    by (simp add: st_point_line_project_def bind_st_def get_line_def l np_unop_def np_binop_def
        np_reduce_def np_scalar_def new_array_def nth_append del: clip.simps)
  moreover have "?res = point_line_project (line_val s l) (arrays s ! p) lb rb"
    by (simp add: point_line_project_def line_val_def l Let_def del: clip.simps)
  ultimately show ?thesis
    by (simp add: extends_arrays nth_append del: clip.simps)
qed

lemma st_lhi_loop_run:
  assumes "wf_line s line" "\<forall>p \<in> set prevs. wf_line s p"
  shows "\<exists>s'. st_lhi_loop line prevs l r s
             = (lhi_loop (line_val s line) (map (line_val s) prevs) l r, s')
           \<and> extends s s'"
  using assms
proof (induction prevs arbitrary: s l r)
  case Nil
  then show ?case by (simp add: return_st_def extends_refl)
next
  case (Cons p ps)
  obtain pp pd where p: "line_objs s ! p = (pp, pd)" by (cases "line_objs s ! p")
  obtain lp ld where ln: "line_objs s ! line = (lp, ld)" by (cases "line_objs s ! line")
  from Cons.prems p ln have b: "pp < length (arrays s)" "pd < length (arrays s)"
    "lp < length (arrays s)" "ld < length (arrays s)"
    by (simp_all add: wf_line_def)
  let ?diff = "vsub (arrays s ! lp) (arrays s ! pp)"
  let ?s1 = "s\<lparr>arrays := arrays s @ [?diff]\<rparr>"
  let ?num = "dot (arrays s ! pd) ?diff"
  let ?den = "det (arrays s ! ld) (arrays s ! pd)"
  let ?r = "if ?den > 0 then min_right r (?num / ?den) else r"
  let ?l = "if ?den > 0 then l else max_left l (?num / ?den)"
  have ext: "extends s ?s1" by (rule extends_arrays)
  then have g: "grows s ?s1" by (simp add: extends_def)
  have wl: "wf_line ?s1 line" and vl: "line_val ?s1 line = line_val s line"
    using grows_line [OF g Cons.prems(1)] by simp_all
  have wps: "\<forall>q \<in> set ps. wf_line ?s1 q"
    using grows_line [OF g] Cons.prems(2) by simp
  have vps: "map (line_val ?s1) ps = map (line_val s) ps"
    using grows_line [OF g] Cons.prems(2) by simp
  have rec: "\<exists>s'. st_lhi_loop line ps l' r' ?s1
             = (lhi_loop (line_val s line) (map (line_val s) ps) l' r', s') \<and> extends s s'" for l' r'
  proof -
    from Cons.IH [OF wl wps, of l' r'] obtain s' where
      "st_lhi_loop line ps l' r' ?s1 = (lhi_loop (line_val ?s1 line) (map (line_val ?s1) ps) l' r', s')"
      and "extends ?s1 s'" by blast
    with ext show ?thesis by (auto simp: vl vps intro: extends_trans)
  qed
  have step: "st_lhi_loop line (p # ps) l r s =
      (if ?den = 0 then (if ?num < 0 then raise_st InfeasibleError else st_lhi_loop line ps l r)
       else if left_gt_right ?l ?r then raise_st InfeasibleError
       else st_lhi_loop line ps ?l ?r) ?s1"
    using b
    by (simp add: bind_st_def get_line_def p ln np_binop_def np_reduce_def new_array_def
        nth_append Let_def)
  have pure: "lhi_loop (line_val s line) (map (line_val s) (p # ps)) l r =
      (if ?den = 0 then (if ?num < 0 then Inl InfeasibleError
                         else lhi_loop (line_val s line) (map (line_val s) ps) l r)
       else if left_gt_right ?l ?r then Inl InfeasibleError
       else lhi_loop (line_val s line) (map (line_val s) ps) ?l ?r)"
    by (simp add: line_val_def p ln Let_def)
  show ?case
    unfolding step pure using rec [of l r] rec [of ?l ?r] ext
    by (simp add: raise_st_def)
qed

lemma st_hpo_loop_run:
  assumes "wf_lines s ls" "wf_lines s rest" "t < length (arrays s)" "p < length (arrays s)"
  shows "\<exists>r s'. st_hpo_loop ls t i rest p s = (r, s') \<and> extends s s'
           \<and> array_result s' r
                (hpo_loop (map (line_val s) ls) (arrays s ! t) i (map (line_val s) rest) (arrays s ! p))"
  using assms
proof (induction rest arbitrary: s i p)
  case Nil
  then show ?case by (simp add: return_st_def extends_refl array_result_def)
next
  case (Cons line rest)
  obtain lp ld where ln: "line_objs s ! line = (lp, ld)" by (cases "line_objs s ! line")
  from Cons.prems(2) have wl: "wf_line s line" by (simp add: wf_lines_def)
  with ln have b: "lp < length (arrays s)" "ld < length (arrays s)"
    by (simp_all add: wf_line_def)
  let ?L = "map (line_val s) ls"
  let ?diff = "vsub (arrays s ! p) (arrays s ! lp)"
  let ?d = "dot ?diff (arrays s ! ld)"
  let ?s1 = "s\<lparr>arrays := arrays s @ [?diff]\<rparr>"
  have ext1: "extends s ?s1" by (rule extends_arrays)
  have keep: "wf_lines s' ls \<and> wf_lines s' rest \<and> t < length (arrays s')
      \<and> map (line_val s') ls = ?L \<and> map (line_val s') rest = map (line_val s) rest
      \<and> arrays s' ! t = arrays s ! t \<and> wf_line s' line \<and> line_val s' line = line_val s line
      \<and> wf_lines s' (take i ls) \<and> map (line_val s') (take i ls) = take i ?L"
    if "extends s s'" for s'
  proof -
    from that have g: "grows s s'" by (simp add: extends_def)
    have sub: "set (take i ls) \<subseteq> set ls" by (rule set_take_subset)
    have m: "map (line_val s') xs = map (line_val s) xs \<and> wf_lines s' xs" if "wf_lines s xs" for xs
      using that grows_line [OF g] by (simp add: wf_lines_def)
    from sub Cons.prems(1) have "wf_lines s (take i ls)" by (auto simp: wf_lines_def)
    moreover from Cons.prems(2) have "wf_lines s rest" by (simp add: wf_lines_def)
    ultimately have "wf_lines s (take i ls)" "wf_lines s rest" by simp_all
    from m [OF this(1)] m [OF Cons.prems(1)] m [OF this(2)]
      grows_line [OF g wl] grows_array [OF g Cons.prems(3)]
    show ?thesis by (simp add: take_map)
  qed
  have rec: "\<exists>r s''. st_hpo_loop ls t (Suc i) rest q s' = (r, s'') \<and> extends s s''
      \<and> array_result s'' r (hpo_loop ?L (arrays s ! t) (Suc i) (map (line_val s) rest) (arrays s' ! q))"
    if "extends s s'" "q < length (arrays s')" for s' q
  proof -
    from keep [OF that(1)] have k: "wf_lines s' ls" "wf_lines s' rest" "t < length (arrays s')"
      "map (line_val s') ls = ?L" "map (line_val s') rest = map (line_val s) rest"
      "arrays s' ! t = arrays s ! t" by simp_all
    from Cons.IH [OF k(1,2,3) that(2), of "Suc i"] that(1) show ?thesis
      unfolding k(4,5,6) by (blast intro: extends_trans)
  qed
  have step: "st_hpo_loop ls t i (line # rest) p s =
      (if ?d \<ge> 0 then st_hpo_loop ls t (Suc i) rest p
       else bind_st (st_line_halfplane_intersect line (take i ls)) (\<lambda>(left_dist, right_dist).
            bind_st (st_point_line_project line t left_dist right_dist) (\<lambda>p'.
            st_hpo_loop ls t (Suc i) rest p'))) ?s1"
    using b Cons.prems(4)
    by (simp add: bind_st_def get_line_def ln np_binop_def np_reduce_def new_array_def nth_append)
  have d: "dot (vsub (arrays s ! p) (point (line_val s line))) (direction (line_val s line)) = ?d"
    by (simp add: line_val_def ln)
  show ?case
  proof (cases "?d \<ge> 0")
    case True
    have "p < length (arrays ?s1)" using Cons.prems(4) by simp
    from rec [OF ext1 this] True Cons.prems(4) show ?thesis
      unfolding step by (simp add: d nth_append)
  next
    case False
    from keep [OF ext1] have k1: "wf_line ?s1 line" "line_val ?s1 line = line_val s line"
      "wf_lines ?s1 (take i ls)" "map (line_val ?s1) (take i ls) = take i ?L" by simp_all
    from st_lhi_loop_run [OF k1(1), of "take i ls" None None] k1(3)
    obtain s2 where lhi: "st_line_halfplane_intersect line (take i ls) ?s1
        = (line_halfplane_intersect (line_val s line) (take i ?L), s2)"
      and ext12: "extends ?s1 s2"
      unfolding k1(2,4) line_halfplane_intersect_def st_line_halfplane_intersect_def wf_lines_def
      by blast
    have ext2: "extends s s2" using ext1 ext12 by (rule extends_trans)
    show ?thesis
    proof (cases "line_halfplane_intersect (line_val s line) (take i ?L)")
      case (Inl e)
      with False lhi ext2 show ?thesis
        unfolding step by (simp add: d bind_st_def array_result_def)
    next
      case (Inr b)
      obtain lo hi where lohi: "b = (lo, hi)" by (cases b)
      from keep [OF ext2] have k2: "wf_line s2 line" "line_val s2 line = line_val s line"
        "t < length (arrays s2)" "arrays s2 ! t = arrays s ! t" by simp_all
      from st_point_line_project_run [OF k2(1,3), of lo hi]
      obtain q s3 where plp: "st_point_line_project line t lo hi s2 = (Inr q, s3)"
        and ext23: "extends s2 s3" and q: "q < length (arrays s3)"
        and qv: "arrays s3 ! q = point_line_project (line_val s line) (arrays s ! t) lo hi"
        unfolding k2(2,4) by blast
      have ext3: "extends s s3" using ext2 ext23 by (rule extends_trans)
      from rec [OF ext3 q] False Inr lohi lhi plp show ?thesis
        unfolding step by (simp add: d bind_st_def qv)
    qed
  qed
qed

lemma st_normalized_run:
  assumes "x < length (arrays s)"
  shows "st_normalized x s =
     (case normalized (arrays s ! x) of
        Inl e \<Rightarrow> (Inl e, s)
      | Inr n \<Rightarrow> (Inr (length (arrays s)), s\<lparr>arrays := arrays s @ [n]\<rparr>))"
  by (simp add: st_normalized_def normalized_def bind_st_def np_reduce_def np_scalar_def
      new_array_def raise_st_def norm_sq_def Let_def)

lemma st_get_avoidance_velocity_branches:
  "st_get_avoidance_velocity agent collider t dt =
     bind_st (get_agent agent) (\<lambda>a.
     bind_st (get_agent collider) (\<lambda>c.
     bind_st (np_binop vsub (position_ref a) (position_ref c)) (\<lambda>diff.
     bind_st (np_unop vneg diff) (\<lambda>x.
     bind_st (np_binop vsub (velocity_ref a) (velocity_ref c)) (\<lambda>v.
     (let r = radius_val a + radius_val c in
     bind_st (np_reduce dot x x) (\<lambda>x_len_sq.
       if x_len_sq \<ge> r * r then
         bind_st (np_scalar sdiv x t) (\<lambda>x_t.
         bind_st (np_scalar smul x_t (1 - (r * r) / x_len_sq)) (\<lambda>adjusted_center.
         bind_st (np_binop vsub v adjusted_center) (\<lambda>rel.
         bind_st (np_reduce dot rel adjusted_center) (\<lambda>side.
           if side < 0 then cap_prog x v r t else leg_prog x v r x_len_sq))))
       else cap_prog x v r dt)))))))"
  unfolding st_get_avoidance_velocity_def cap_prog_def leg_prog_def by (rule refl)

lemma cap_run:
  assumes "x < length (arrays s)" "v < length (arrays s)"
    and w_def: "w = vsub (arrays s ! v) (sdiv (arrays s ! x) k)"
  shows "\<exists>res s'. cap_prog x v r k s = (res, s')
    \<and> extends s s'
    \<and> pair_result s' res
        (case normalized w of
           Inl e \<Rightarrow> Inl e
         | Inr nw \<Rightarrow> Inr (vsub (sdiv (smul nw r) k) w, nw))"
proof (cases "normalized w")
  case (Inl e)
  let ?s2 = "s\<lparr>arrays := arrays s @ [sdiv (arrays s ! x) k, w]\<rparr>"
  have n: "st_normalized (Suc (length (arrays s))) ?s2 = (Inl e, ?s2)"
    using Inl by (simp add: st_normalized_run nth_append)
  show ?thesis
    using assms(1,2) Inl n
    by (simp add: cap_prog_def bind_st_def np_scalar_def np_binop_def new_array_def nth_append
        w_def pair_result_def extends_arrays)
next
  case (Inr nw)
  let ?xk = "sdiv (arrays s ! x) k"
  let ?s2 = "s\<lparr>arrays := arrays s @ [?xk, w]\<rparr>"
  let ?u = "vsub (sdiv (smul nw r) k) w"
  let ?s6 = "s\<lparr>arrays := arrays s @ [?xk, w, nw, smul nw r, sdiv (smul nw r) k, ?u]\<rparr>"
  have n1: "st_normalized (Suc (length (arrays s))) ?s2
      = (Inr (length (arrays s) + 2), s\<lparr>arrays := arrays s @ [?xk, w, nw]\<rparr>)"
    using Inr by (simp add: st_normalized_run nth_append)
  have n2: "st_normalized (Suc (length (arrays s))) ?s6
      = (Inr (length (arrays s) + 6), s\<lparr>arrays := arrays s @ [?xk, w, nw, smul nw r, sdiv (smul nw r) k, ?u, nw]\<rparr>)"
    using Inr by (simp add: st_normalized_run nth_append)
  show ?thesis
    using assms(1,2) Inr n1 n2
    by (simp add: cap_prog_def bind_st_def np_scalar_def np_binop_def new_array_def nth_append
        w_def pair_result_def extends_arrays return_st_def)
qed

lemma leg_run:
  assumes "x < length (arrays s)" "v < length (arrays s)"
    and sine: "sine = copysign r (det (arrays s ! v) (arrays s ! x))"
    and rx: "rotated_x = sdiv (mat_vec ((sqrt (d2 - r * r), sine), (- sine, sqrt (d2 - r * r)))
                                (arrays s ! x)) d2"
  shows "\<exists>res s'. leg_prog x v r d2 s = (res, s')
    \<and> extends s s'
    \<and> pair_result s' res
        (Inr (vsub (smul rotated_x (dot (arrays s ! v) rotated_x)) (arrays s ! v),
              if sine < 0 then vneg (perp rotated_x) else perp rotated_x))"
proof (cases "sine < 0")
  case True
  with assms(1,2) show ?thesis
    unfolding leg_prog_def Let_def sine [symmetric]
    by (simp add: bind_st_def np_reduce_def sine [symmetric] new_matrix_def np_matvec_def
        np_scalar_def np_unop_def np_binop_def new_array_def return_st_def nth_append
        rx [symmetric] pair_result_def extends_def grows_def del: mat_vec.simps)
next
  case False
  with assms(1,2) show ?thesis
    unfolding leg_prog_def Let_def sine [symmetric]
    by (simp add: bind_st_def np_reduce_def sine [symmetric] new_matrix_def np_matvec_def
        np_scalar_def np_unop_def np_binop_def new_array_def return_st_def nth_append
        rx [symmetric] pair_result_def extends_def grows_def del: mat_vec.simps)
qed

lemma st_get_avoidance_velocity_run:
  assumes "wf_agent s agent" "wf_agent s collider"
  shows "\<exists>res s'. st_get_avoidance_velocity agent collider t dt s = (res, s') \<and> extends s s'
     \<and> pair_result s' res
          (get_avoidance_velocity (agent_val s agent) (agent_val s collider) t dt)"
proof -
  define a where "a = agent_objs s ! agent"
  define c where "c = agent_objs s ! collider"
  define n where "n = length (arrays s)"
  define X where "X = vneg (vsub (arrays s ! position_ref a) (arrays s ! position_ref c))"
  define V where "V = vsub (arrays s ! velocity_ref a) (arrays s ! velocity_ref c)"
  define r where "r = radius_val a + radius_val c"
  define s3 where "s3 = s\<lparr>arrays := arrays s @ [vsub (arrays s ! position_ref a) (arrays s ! position_ref c), X, V]\<rparr>"
  define C where "C = smul (sdiv X t) (1 - (r * r) / norm_sq X)"
  define s6 where "s6 = s\<lparr>arrays := arrays s @ [vsub (arrays s ! position_ref a) (arrays s ! position_ref c), X, V,
      sdiv X t, C, vsub V C]\<rparr>"
  from assms have b: "position_ref a < n" "position_ref c < n" "velocity_ref a < n" "velocity_ref c < n"
    by (simp_all add: wf_agent_def a_def c_def n_def)
  have e3: "extends s s3" unfolding s3_def by (rule extends_arrays)
  have e6: "extends s s6" unfolding s6_def by (rule extends_arrays)
  have x3: "Suc n < length (arrays s3)" "arrays s3 ! Suc n = X"
    and v3: "Suc (Suc n) < length (arrays s3)" "arrays s3 ! Suc (Suc n) = V"
    by (simp_all add: s3_def n_def nth_append)
  have x6: "Suc n < length (arrays s6)" "arrays s6 ! Suc n = X"
    and v6: "Suc (Suc n) < length (arrays s6)" "arrays s6 ! Suc (Suc n) = V"
    by (simp_all add: s6_def n_def nth_append)
  have run: "st_get_avoidance_velocity agent collider t dt s =
      (if norm_sq X \<ge> r * r then
         (if dot (vsub V C) C < 0 then cap_prog (Suc n) (Suc (Suc n)) r t s6
          else leg_prog (Suc n) (Suc (Suc n)) r (norm_sq X) s6)
       else cap_prog (Suc n) (Suc (Suc n)) r dt s3)"
    using b unfolding st_get_avoidance_velocity_branches s3_def s6_def C_def X_def V_def r_def n_def
    by (simp add: bind_st_def get_agent_def a_def [symmetric] c_def [symmetric] np_binop_def
        np_unop_def np_reduce_def np_scalar_def new_array_def nth_append Let_def norm_sq_def)
  have pure: "get_avoidance_velocity (agent_val s agent) (agent_val s collider) t dt =
      (if norm_sq X \<ge> r * r then
         (if dot (vsub V C) C < 0 then
            (case normalized (vsub V (sdiv X t)) of
               Inl e \<Rightarrow> Inl e
             | Inr nw \<Rightarrow> Inr (vsub (sdiv (smul nw r) t) (vsub V (sdiv X t)), nw))
          else
            Inr (vsub (smul (sdiv (mat_vec ((sqrt (norm_sq X - r * r), copysign r (det V X)),
                                  (- copysign r (det V X), sqrt (norm_sq X - r * r))) X) (norm_sq X))
                       (dot V (sdiv (mat_vec ((sqrt (norm_sq X - r * r), copysign r (det V X)),
                                  (- copysign r (det V X), sqrt (norm_sq X - r * r))) X) (norm_sq X)))) V,
                 if copysign r (det V X) < 0
                 then vneg (perp (sdiv (mat_vec ((sqrt (norm_sq X - r * r), copysign r (det V X)),
                                  (- copysign r (det V X), sqrt (norm_sq X - r * r))) X) (norm_sq X)))
                 else perp (sdiv (mat_vec ((sqrt (norm_sq X - r * r), copysign r (det V X)),
                                  (- copysign r (det V X), sqrt (norm_sq X - r * r))) X) (norm_sq X))))
       else
         (case normalized (vsub V (sdiv X dt)) of
            Inl e \<Rightarrow> Inl e
          | Inr nw \<Rightarrow> Inr (vsub (sdiv (smul nw r) dt) (vsub V (sdiv X dt)), nw)))"
    unfolding get_avoidance_velocity_def Let_def C_def X_def V_def r_def
    by (simp add: agent_val_def a_def [symmetric] c_def [symmetric] del: mat_vec.simps
        cong: sum.case_cong)
  consider (overlap) "\<not> norm_sq X \<ge> r * r"
    | (cap) "norm_sq X \<ge> r * r" "dot (vsub V C) C < 0"
    | (leg) "norm_sq X \<ge> r * r" "\<not> dot (vsub V C) C < 0"
    by blast
  then show ?thesis
  proof cases
    case overlap
    from cap_run [OF x3(1) v3(1), of "vsub V (sdiv X dt)" dt r]
    obtain res s' where "cap_prog (Suc n) (Suc (Suc n)) r dt s3 = (res, s')" "extends s3 s'"
      "pair_result s' res (case normalized (vsub V (sdiv X dt)) of
           Inl e \<Rightarrow> Inl e
         | Inr nw \<Rightarrow> Inr (vsub (sdiv (smul nw r) dt) (vsub V (sdiv X dt)), nw))"
      unfolding x3(2) v3(2) by blast
    with overlap e3 show ?thesis
      unfolding run pure by (auto intro: extends_trans)
  next
    case cap
    from cap_run [OF x6(1) v6(1), of "vsub V (sdiv X t)" t r]
    obtain res s' where "cap_prog (Suc n) (Suc (Suc n)) r t s6 = (res, s')" "extends s6 s'"
      "pair_result s' res (case normalized (vsub V (sdiv X t)) of
           Inl e \<Rightarrow> Inl e
         | Inr nw \<Rightarrow> Inr (vsub (sdiv (smul nw r) t) (vsub V (sdiv X t)), nw))"
      unfolding x6(2) v6(2) by blast
    with cap e6 show ?thesis
      unfolding run pure by (auto intro: extends_trans)
  next
    case leg
    from leg_run [OF x6(1) v6(1) refl refl, of r "norm_sq X"]
    obtain res s' where "leg_prog (Suc n) (Suc (Suc n)) r (norm_sq X) s6 = (res, s')"
      "extends s6 s'"
      "pair_result s' res
        (Inr (vsub (smul (sdiv (mat_vec ((sqrt (norm_sq X - r * r), copysign r (det V X)),
                                  (- copysign r (det V X), sqrt (norm_sq X - r * r))) X) (norm_sq X))
                       (dot V (sdiv (mat_vec ((sqrt (norm_sq X - r * r), copysign r (det V X)),
                                  (- copysign r (det V X), sqrt (norm_sq X - r * r))) X) (norm_sq X)))) V,
                 if copysign r (det V X) < 0
                 then vneg (perp (sdiv (mat_vec ((sqrt (norm_sq X - r * r), copysign r (det V X)),
                                  (- copysign r (det V X), sqrt (norm_sq X - r * r))) X) (norm_sq X)))
                 else perp (sdiv (mat_vec ((sqrt (norm_sq X - r * r), copysign r (det V X)),
                                  (- copysign r (det V X), sqrt (norm_sq X - r * r))) X) (norm_sq X))))"
      unfolding x6(2) v6(2) by blast
    with leg e6 show ?thesis
      unfolding run pure by (auto intro: extends_trans)
  qed
qed

lemma st_halfplane_optimize_run:
  assumes "L < length (list_objs s)" "wf_lines s (list_objs s ! L)" "t < length (arrays s)"
  shows "\<exists>res s'. st_halfplane_optimize L t s = (res, s') \<and> extends s s'
     \<and> array_result s' res
          (halfplane_optimize (map (line_val s) (list_objs s ! L)) (arrays s ! t))"
  using st_hpo_loop_run [OF assms(2) assms(2) assms(3) assms(3), of 0]
  by (simp add: st_halfplane_optimize_def halfplane_optimize_def bind_st_def get_list_def)

lemma st_Line_init_run:
  assumes "p < length (arrays s)" "d < length (arrays s)"
  shows "\<exists>res s'. st_Line_init p d s = (res, s') \<and> extends s s'
     \<and> (case Line_init (arrays s ! p) (arrays s ! d) of
           Inl e \<Rightarrow> res = Inl e
         | Inr line \<Rightarrow> (\<exists>l. res = Inr l \<and> wf_line s' l \<and> line_val s' l = line))"
proof (cases "normalized (arrays s ! d)")
  case (Inl e)
  let ?s2 = "s\<lparr>arrays := arrays s @ [arrays s ! p, arrays s ! d]\<rparr>"
  have "st_normalized (Suc (length (arrays s))) ?s2 = (Inl e, ?s2)"
    using Inl by (simp add: st_normalized_run nth_append)
  with assms Inl show ?thesis
    by (simp add: st_Line_init_def Line_init_def bind_st_def np_unop_def new_array_def
        nth_append extends_arrays)
next
  case (Inr n)
  let ?s2 = "s\<lparr>arrays := arrays s @ [arrays s ! p, arrays s ! d]\<rparr>"
  have "st_normalized (Suc (length (arrays s))) ?s2
      = (Inr (length (arrays s) + 2), s\<lparr>arrays := arrays s @ [arrays s ! p, arrays s ! d, n]\<rparr>)"
    using Inr by (simp add: st_normalized_run nth_append)
  with assms Inr show ?thesis
    by (simp add: st_Line_init_def Line_init_def bind_st_def np_unop_def new_array_def
        new_line_def nth_append extends_def grows_def wf_line_def line_val_def)
qed

lemma lists_kept_refl: "lists_kept L s s"
  by (simp add: lists_kept_def)

lemma lists_kept_trans: "lists_kept L s s' \<Longrightarrow> lists_kept L s' s'' \<Longrightarrow> lists_kept L s s''"
  by (auto simp: lists_kept_def)

lemma extends_lists_kept: "extends s s' \<Longrightarrow> lists_kept L s s'"
  by (auto simp: extends_def lists_kept_def prefix_nth dest: prefix_length_le)

lemma extends_list: "extends s s' \<Longrightarrow> L < length (list_objs s)
    \<Longrightarrow> L < length (list_objs s') \<and> list_objs s' ! L = list_objs s ! L"
  by (auto simp: extends_def prefix_nth dest: prefix_length_le)

lemma grows_agent:
  assumes "grows s s'" "wf_agent s a"
  shows "wf_agent s' a \<and> agent_val s' a = agent_val s a \<and> agent_objs s' ! a = agent_objs s ! a"
proof -
  from assms(1) have eq: "agent_objs s' = agent_objs s" by (simp add: grows_def)
  with assms show ?thesis
    by (simp add: wf_agent_def agent_val_def grows_array)
qed

lemma grows_lines:
  assumes "grows s s'" "wf_lines s ls"
  shows "wf_lines s' ls \<and> map (line_val s') ls = map (line_val s) ls"
  using assms grows_line by (simp add: wf_lines_def)

lemma st_orca_loop_run:
  assumes "wf_agent s agent" "\<forall>c \<in> set cs. wf_agent s c" "L < length (list_objs s)"
    "wf_lines s (list_objs s ! L)"
  shows "\<exists>res s'. st_orca_loop agent cs t dt L s = (res, s') \<and> grows s s' \<and> lists_kept L s s'
     \<and> (case orca_loop (agent_val s agent) (map (agent_val s) cs) t dt
                (map (line_val s) (list_objs s ! L)) of
           Inl e \<Rightarrow> res = Inl e
         | Inr lines \<Rightarrow> res = Inr () \<and> L < length (list_objs s')
             \<and> wf_lines s' (list_objs s' ! L) \<and> map (line_val s') (list_objs s' ! L) = lines)"
  using assms
proof (induction cs arbitrary: s)
  case Nil
  then show ?case by (simp add: return_st_def grows_refl lists_kept_refl)
next
  case (Cons c cs)
  let ?A = "agent_val s agent"
  let ?acc = "map (line_val s) (list_objs s ! L)"
  from Cons.prems(2) have wc: "wf_agent s c" by simp
  from st_get_avoidance_velocity_run [OF Cons.prems(1) wc, of t dt]
  obtain r1 s1 where g: "st_get_avoidance_velocity agent c t dt s = (r1, s1)"
    and e1: "extends s s1"
    and p1: "pair_result s1 r1 (get_avoidance_velocity ?A (agent_val s c) t dt)" by blast
  from e1 have g1: "grows s s1" by (simp add: extends_def)
  show ?case
  proof (cases "get_avoidance_velocity ?A (agent_val s c) t dt")
    case (Inl e)
    with p1 have "r1 = Inl e" by (simp add: pair_result_def)
    with g Inl g1 e1 show ?thesis
      by (simp add: bind_st_def extends_lists_kept)
  next
    case (Inr un)
    obtain u n where un: "un = (u, n)" by (cases un)
    from p1 Inr un obtain ur nr where r1: "r1 = Inr (ur, nr)"
      and ur: "ur < length (arrays s1)" "arrays s1 ! ur = u"
      and nr: "nr < length (arrays s1)" "arrays s1 ! nr = n"
      by (auto simp: pair_result_def)
    define a where "a = agent_objs s ! agent"
    from grows_agent [OF g1 Cons.prems(1)] have a1: "agent_objs s1 ! agent = a"
      by (simp add: a_def)
    from Cons.prems(1) have va: "velocity_ref a < length (arrays s)"
      by (simp add: wf_agent_def a_def)
    from grows_array [OF g1 va] have va1: "velocity_ref a < length (arrays s1)"
      "arrays s1 ! velocity_ref a = velocity ?A"
      by (simp_all add: agent_val_def a_def)
    define anchor where "anchor = vadd (velocity ?A) (sdiv u 2)"
    define s3 where "s3 = s1\<lparr>arrays := arrays s1 @ [sdiv u 2, anchor]\<rparr>"
    have e13: "extends s1 s3" unfolding s3_def by (rule extends_arrays)
    have e3: "extends s s3" using e1 e13 by (rule extends_trans)
    have an3: "Suc (length (arrays s1)) < length (arrays s3)"
      "arrays s3 ! Suc (length (arrays s1)) = anchor"
      and nr3: "nr < length (arrays s3)" "arrays s3 ! nr = n"
      using nr by (simp_all add: s3_def nth_append)
    have step: "st_orca_loop agent (c # cs) t dt L s =
        bind_st (st_Line_init (Suc (length (arrays s1))) nr) (\<lambda>line.
        bind_st (list_append L line) (\<lambda>_. st_orca_loop agent cs t dt L)) s3"
      using ur va1
      by (simp add: bind_st_def g r1 get_agent_def a1 np_scalar_def np_binop_def new_array_def
          nth_append s3_def anchor_def)
    from st_Line_init_run [OF an3(1) nr3(1)]
    obtain r4 s4 where li: "st_Line_init (Suc (length (arrays s1))) nr s3 = (r4, s4)"
      and e34: "extends s3 s4"
      and l4: "case Line_init anchor n of
           Inl e \<Rightarrow> r4 = Inl e
         | Inr line \<Rightarrow> (\<exists>l. r4 = Inr l \<and> wf_line s4 l \<and> line_val s4 l = line)"
      unfolding an3(2) nr3(2) by blast
    have e4: "extends s s4" using e3 e34 by (rule extends_trans)
    then have g4: "grows s s4" by (simp add: extends_def)
    show ?thesis
    proof (cases "Line_init anchor n")
      case (Inl e)
      with l4 have "r4 = Inl e" by simp
      with li Inl Inr un g4 e4 show ?thesis
        unfolding step by (simp add: bind_st_def anchor_def extends_lists_kept)
    next
      case line: (Inr line)
      with l4 obtain l where r4: "r4 = Inr l" and wl4: "wf_line s4 l"
        and lv4: "line_val s4 l = line" by auto
      define s5 where "s5 = s4\<lparr>list_objs := (list_objs s4)[L := list_objs s4 ! L @ [l]]\<rparr>"
      have g45: "grows s4 s5" by (simp add: s5_def grows_def)
      have g5: "grows s s5" using g4 g45 by (rule grows_trans)
      from extends_list [OF e4 Cons.prems(3)] have L4: "L < length (list_objs s4)"
        "list_objs s4 ! L = list_objs s ! L" by simp_all
      have k5: "lists_kept L s s5"
        using extends_lists_kept [OF e4, of L] by (simp add: lists_kept_def s5_def)
      have L5: "L < length (list_objs s5)" "list_objs s5 ! L = list_objs s ! L @ [l]"
        using L4 by (simp_all add: s5_def)
      have wa5: "wf_agent s5 agent" "agent_val s5 agent = ?A"
        using grows_agent [OF g5 Cons.prems(1)] by simp_all
      have wc5: "\<forall>c \<in> set cs. wf_agent s5 c" "map (agent_val s5) cs = map (agent_val s) cs"
        using grows_agent [OF g5] Cons.prems(2) by simp_all
      have old5: "wf_lines s5 (list_objs s ! L)" "map (line_val s5) (list_objs s ! L) = ?acc"
        using grows_lines [OF g5 Cons.prems(4)] by simp_all
      have new5: "wf_line s5 l" "line_val s5 l = line"
        using grows_line [OF g45 wl4] lv4 by simp_all
      have wl5: "wf_lines s5 (list_objs s5 ! L)"
        using old5(1) new5(1) by (simp add: L5 wf_lines_def)
      have lv5: "map (line_val s5) (list_objs s5 ! L) = ?acc @ [line]"
        using old5(2) new5(2) by (simp add: L5)
      from Cons.IH [OF wa5(1) wc5(1) L5(1) wl5]
      obtain res s' where rec: "st_orca_loop agent cs t dt L s5 = (res, s')"
        and g': "grows s5 s'" and k': "lists_kept L s5 s'"
        and post: "case orca_loop ?A (map (agent_val s) cs) t dt (?acc @ [line]) of
           Inl e \<Rightarrow> res = Inl e
         | Inr lines \<Rightarrow> res = Inr () \<and> L < length (list_objs s')
             \<and> wf_lines s' (list_objs s' ! L) \<and> map (line_val s') (list_objs s' ! L) = lines"
        unfolding wa5(2) wc5(2) lv5 by blast
      have "st_orca_loop agent (c # cs) t dt L s = (res, s')"
        unfolding step by (simp add: bind_st_def li r4 list_append_def s5_def [symmetric] rec)
      moreover have "grows s s'" using g5 g' by (rule grows_trans)
      moreover have "lists_kept L s s'" using k5 k' by (rule lists_kept_trans)
      moreover have "orca_loop ?A (map (agent_val s) (c # cs)) t dt ?acc
          = orca_loop ?A (map (agent_val s) cs) t dt (?acc @ [line])"
        using Inr un line by (simp add: anchor_def)
      ultimately show ?thesis using post by simp
    qed
  qed
qed

lemma prefix_nthI:
  assumes "length xs \<le> length ys" "\<forall>i < length xs. ys ! i = xs ! i"
  shows "prefix xs ys"
proof -
  have "take (length xs) ys = xs"
    using assms by (intro nth_equalityI) simp_all
  then show ?thesis by (metis take_is_prefix)
qed

lemma st_orca_run:
  assumes "wf_agent s agent" "N < length (list_objs s)" "\<forall>c \<in> set (list_objs s ! N). wf_agent s c"
  shows "\<exists>res s'. st_orca agent N t dt s = (res, s') \<and> extends s s'
     \<and> orca_result s' res
          (orca (agent_val s agent) (map (agent_val s) (list_objs s ! N)) t dt)"
proof -
  define L where "L = length (list_objs s)"
  define cs where "cs = list_objs s ! N"
  define s0 where "s0 = s\<lparr>list_objs := list_objs s @ [[]]\<rparr>"
  let ?A = "agent_val s agent"
  have g0: "grows s s0" by (simp add: s0_def grows_def)
  have L0: "L < length (list_objs s0)" "list_objs s0 ! L = []" "list_objs s0 ! N = cs"
    using assms(2) by (simp_all add: s0_def L_def cs_def nth_append)
  have wa0: "wf_agent s0 agent" "agent_val s0 agent = ?A"
    using grows_agent [OF g0 assms(1)] by simp_all
  have wc0: "\<forall>c \<in> set cs. wf_agent s0 c" "map (agent_val s0) cs = map (agent_val s) cs"
    using grows_agent [OF g0] assms(3) by (simp_all add: cs_def)
  have wl0: "wf_lines s0 (list_objs s0 ! L)" by (simp add: L0 wf_lines_def)
  from st_orca_loop_run [OF wa0(1) wc0(1) L0(1) wl0, of t dt]
  obtain r1 s1 where loop: "st_orca_loop agent cs t dt L s0 = (r1, s1)"
    and g01: "grows s0 s1" and k01: "lists_kept L s0 s1"
    and post: "case orca_loop ?A (map (agent_val s) cs) t dt [] of
           Inl e \<Rightarrow> r1 = Inl e
         | Inr lines \<Rightarrow> r1 = Inr () \<and> L < length (list_objs s1)
             \<and> wf_lines s1 (list_objs s1 ! L) \<and> map (line_val s1) (list_objs s1 ! L) = lines"
    unfolding wa0(2) wc0(2) L0(2) by auto
  have g1: "grows s s1" using g0 g01 by (rule grows_trans)
  have "prefix (list_objs s) (list_objs s1)"
  proof (rule prefix_nthI)
    show "length (list_objs s) \<le> length (list_objs s1)"
      using k01 by (simp add: lists_kept_def s0_def)
    show "\<forall>i < length (list_objs s). list_objs s1 ! i = list_objs s ! i"
      using k01 by (simp add: lists_kept_def s0_def L_def nth_append)
  qed
  with g1 have e1: "extends s s1" by (simp add: extends_def)
  have start: "st_orca agent N t dt s =
      bind_st (st_orca_loop agent cs t dt L) (\<lambda>_.
      bind_st (get_agent agent) (\<lambda>a.
      bind_st (st_halfplane_optimize L (pref_velocity_ref a)) (\<lambda>p.
      return_st (p, L)))) s0"
    using L0(3)
    by (simp add: st_orca_def bind_st_def new_list_def get_list_def L_def s0_def)
  show ?thesis
  proof (cases "orca_loop ?A (map (agent_val s) cs) t dt []")
    case (Inl e)
    with post have "r1 = Inl e" by simp
    with loop Inl e1 show ?thesis
      unfolding start by (simp add: bind_st_def orca_def orca_result_def cs_def)
  next
    case (Inr lines)
    with post have r1: "r1 = Inr ()" and L1: "L < length (list_objs s1)"
      and wl1: "wf_lines s1 (list_objs s1 ! L)"
      and lv1: "map (line_val s1) (list_objs s1 ! L) = lines" by simp_all
    define a where "a = agent_objs s ! agent"
    from grows_agent [OF g1 assms(1)] have a1: "agent_objs s1 ! agent = a"
      by (simp add: a_def)
    from assms(1) have "pref_velocity_ref a < length (arrays s)"
      by (simp add: wf_agent_def a_def)
    from grows_array [OF g1 this] have pv1: "pref_velocity_ref a < length (arrays s1)"
      "arrays s1 ! pref_velocity_ref a = pref_velocity ?A"
      by (simp_all add: agent_val_def a_def)
    from st_halfplane_optimize_run [OF L1 wl1 pv1(1)]
    obtain r2 s2 where hpo: "st_halfplane_optimize L (pref_velocity_ref a) s1 = (r2, s2)"
      and e12: "extends s1 s2"
      and res: "array_result s2 r2 (halfplane_optimize lines (pref_velocity ?A))"
      unfolding lv1 pv1(2) by blast
    have e2: "extends s s2" using e1 e12 by (rule extends_trans)
    from e12 have g12: "grows s1 s2" by (simp add: extends_def)
    from extends_list [OF e12 L1] have L2: "L < length (list_objs s2)"
      "list_objs s2 ! L = list_objs s1 ! L" by simp_all
    from grows_lines [OF g12 wl1] lv1 have wl2: "wf_lines s2 (list_objs s2 ! L)"
      "map (line_val s2) (list_objs s2 ! L) = lines" by (simp_all add: L2)
    have run: "st_orca agent N t dt s =
        (case r2 of Inl e \<Rightarrow> (Inl e, s2) | Inr p \<Rightarrow> (Inr (p, L), s2))"
      unfolding start
      by (simp add: bind_st_def loop r1 get_agent_def a1 hpo return_st_def split: sum.splits)
    show ?thesis
    proof (cases "halfplane_optimize lines (pref_velocity ?A)")
      case (Inl e)
      with res have "r2 = Inl e" by (simp add: array_result_def)
      with Inl Inr e2 show ?thesis
        unfolding run by (simp add: orca_def orca_result_def cs_def)
    next
      case p: (Inr vel)
      with res obtain p where "r2 = Inr p" "p < length (arrays s2)" "arrays s2 ! p = vel"
        by (auto simp: array_result_def)
      with p Inr e2 L2(1) wl2 show ?thesis
        unfolding run by (simp add: orca_def orca_result_def cs_def)
    qed
  qed
qed

text \<open>
  C9. No core function changes an object it is given. For \<open>orca\<close>,
  \<open>get_avoidance_velocity\<close>, \<open>halfplane_optimize\<close>, \<open>line_halfplane_intersect\<close> and
  \<open>point_line_project\<close>, run on any store in which their arguments are objects of the
  store: every array, matrix, Line, Agent and list of the store before the call is in
  the store after the call, at the same address and with the same content (the call
  only allocates), and the result (a value, or the content of the objects returned, or
  the error raised) is the result of the function on the contents of its arguments.
\<close>

theorem core_functions_keep_inputs:
  "(wf_agent s agent \<and> neighbors < length (list_objs s)
      \<and> (\<forall>c \<in> set (list_objs s ! neighbors). wf_agent s c)
     \<longrightarrow> (\<exists>res s'. st_orca agent neighbors tau dt s = (res, s') \<and> extends s s'
            \<and> orca_result s' res
                 (orca (agent_val s agent) (map (agent_val s) (list_objs s ! neighbors)) tau dt)))
   \<and> (wf_agent s agent \<and> wf_agent s neighbor
     \<longrightarrow> (\<exists>res s'. st_get_avoidance_velocity agent neighbor tau dt s = (res, s') \<and> extends s s'
            \<and> pair_result s' res
                 (get_avoidance_velocity (agent_val s agent) (agent_val s neighbor) tau dt)))
   \<and> (lines < length (list_objs s) \<and> wf_lines s (list_objs s ! lines) \<and> target < length (arrays s)
     \<longrightarrow> (\<exists>res s'. st_halfplane_optimize lines target s = (res, s') \<and> extends s s'
            \<and> array_result s' res
                 (halfplane_optimize (map (line_val s) (list_objs s ! lines)) (arrays s ! target))))
   \<and> (wf_line s line \<and> wf_lines s prior
     \<longrightarrow> (\<exists>s'. st_line_halfplane_intersect line prior s
                 = (line_halfplane_intersect (line_val s line) (map (line_val s) prior), s')
            \<and> extends s s'))
   \<and> (wf_line s line \<and> p < length (arrays s)
     \<longrightarrow> (\<exists>r s'. st_point_line_project line p lb rb s = (Inr r, s') \<and> extends s s'
            \<and> r < length (arrays s')
            \<and> arrays s' ! r = point_line_project (line_val s line) (arrays s ! p) lb rb))"
proof -
  have lhi: "\<exists>s'. st_line_halfplane_intersect line prior s
                 = (line_halfplane_intersect (line_val s line) (map (line_val s) prior), s')
            \<and> extends s s'" if "wf_line s line" "wf_lines s prior"
    using st_lhi_loop_run [of s line prior None None] that
    by (simp add: st_line_halfplane_intersect_def line_halfplane_intersect_def wf_lines_def)
  show ?thesis
    using st_orca_run [of s agent neighbors tau dt]
      st_get_avoidance_velocity_run [of s agent neighbor tau dt]
      st_halfplane_optimize_run [of lines s target]
      lhi
      st_point_line_project_run [of s line p lb rb]
    by blast
qed

theorem core_functions_keep_inputs_witness:
  "wf_agent example_store 0 \<and> wf_agent example_store 1 \<and> wf_line example_store 0
   \<and> list_objs example_store ! 0 = [1] \<and> list_objs example_store ! 1 = [0]
   \<and> extends example_store (snd (st_orca 0 0 5 1 example_store))
   \<and> extends example_store (snd (st_get_avoidance_velocity 0 1 5 1 example_store))
   \<and> extends example_store (snd (st_halfplane_optimize 1 8 example_store))
   \<and> extends example_store (snd (st_line_halfplane_intersect 0 [0] example_store))
   \<and> st_point_line_project 0 8 None None example_store
       = (Inr 12, example_store\<lparr>arrays := arrays example_store @ [(0, - 1), (- 1, - 2), (0, - 2), (0, - 2)]\<rparr>)"
proof -
  have wf: "wf_agent example_store 0" "wf_agent example_store 1" "wf_line example_store 0"
    "list_objs example_store ! 0 = [1]" "list_objs example_store ! 1 = [0]"
    "wf_lines example_store [0]" "8 < length (arrays example_store)"
    "0 < length (list_objs example_store)" "1 < length (list_objs example_store)"
    by (simp_all add: example_store_def wf_agent_def wf_line_def wf_lines_def)
  note inst = core_functions_keep_inputs [of example_store 0 0 5 1 1 1 8 0 "[0]" 8 None None]
  from inst wf have "\<exists>res s'. st_orca 0 0 5 1 example_store = (res, s') \<and> extends example_store s'"
    by auto
  then have a: "extends example_store (snd (st_orca 0 0 5 1 example_store))" by auto
  from inst wf have "\<exists>res s'. st_get_avoidance_velocity 0 1 5 1 example_store = (res, s')
      \<and> extends example_store s'" by blast
  then have b: "extends example_store (snd (st_get_avoidance_velocity 0 1 5 1 example_store))" by auto
  from inst wf have "\<exists>res s'. st_halfplane_optimize 1 8 example_store = (res, s')
      \<and> extends example_store s'" by auto
  then have c: "extends example_store (snd (st_halfplane_optimize 1 8 example_store))" by auto
  from inst wf have "\<exists>res s'. st_line_halfplane_intersect 0 [0] example_store = (res, s')
      \<and> extends example_store s'" by blast
  then have d: "extends example_store (snd (st_line_halfplane_intersect 0 [0] example_store))" by auto
  have e: "st_point_line_project 0 8 None None example_store
       = (Inr 12, example_store\<lparr>arrays := arrays example_store @ [(0, - 1), (- 1, - 2), (0, - 2), (0, - 2)]\<rparr>)"
    by (simp add: st_point_line_project_def bind_st_def get_line_def np_unop_def np_binop_def
        np_reduce_def np_scalar_def new_array_def example_store_def)
  from wf a b c d e show ?thesis by simp
qed

end
